theory Spec2Isabelle
  imports Main "HOL-Library.Sublist"
begin

section \<open>Python strings\<close>

text \<open>
  A Python \<open>str\<close> is a sequence of Unicode code points, so it is modelled as a list of
  code points (natural numbers), not as a list of bytes: \<open>len\<close>, indexing, \<open>strip\<close> and
  the marker \<open>"\<dots>"\<close> literals of \<open>app.py\<close> all count code points.  \<open>str\<close> turns an
  ASCII literal of the source into that representation.
\<close>

type_synonym codepoint = nat
type_synonym pystr = "codepoint list"

definition str :: "string \<Rightarrow> pystr" where
  "str s = map of_char s"

text \<open>\<open>sub in s\<close>: \<open>sub\<close> occurs in \<open>s\<close> as a contiguous substring.\<close>

fun contains :: "pystr \<Rightarrow> pystr \<Rightarrow> bool" where
  "contains sub [] = (sub = [])"
| "contains sub (c # cs) = (prefix sub (c # cs) \<or> contains sub cs)"

text \<open>
  \<open>s.lower()\<close>.  Each code point is replaced, in place, by its lower-case image.  The
  images of the ASCII code points are written out (\<open>A\<close>..\<open>Z\<close> move to \<open>a\<close>..\<open>z\<close>,
  everything else stays).  The image of a code point beyond ASCII comes from the Unicode
  case tables of the Python runtime, which are not part of this repository: it is the
  parameter \<open>uni\<close>, which receives the text before the code point, the code point and
  the text after it (the runtime's rule for a capital sigma looks at both sides) and
  returns the code points that replace it.
\<close>

definition ascii_lower :: "codepoint \<Rightarrow> codepoint" where
  "ascii_lower c = (if 65 \<le> c \<and> c \<le> 90 then c + 32 else c)"

type_synonym unicode_lower = "pystr \<Rightarrow> codepoint \<Rightarrow> pystr \<Rightarrow> pystr"

fun lower_from :: "unicode_lower \<Rightarrow> pystr \<Rightarrow> pystr \<Rightarrow> pystr" where
  "lower_from uni before [] = []"
| "lower_from uni before (c # rest) =
     (if c < 128 then [ascii_lower c] else uni before c rest)
       @ lower_from uni (before @ [c]) rest"

definition lower :: "unicode_lower \<Rightarrow> pystr \<Rightarrow> pystr" where
  "lower uni s = lower_from uni [] s"

section \<open>Coverage tracker\<close>

text \<open>
  The coverage mapping is a dictionary from area keys to area dictionaries with the two
  entries \<open>name\<close> and \<open>covered\<close>.
\<close>

record area =
  name :: pystr
  covered :: bool

type_synonym coverage = "pystr \<rightharpoonup> area"

definition COVERAGE_AREAS :: coverage where
  "COVERAGE_AREAS = map_of
     [(str ''core_responsibilities'', \<lparr>name = str ''Core Responsibilities'', covered = False\<rparr>),
      (str ''technical_skills'', \<lparr>name = str ''Technical Skills'', covered = False\<rparr>),
      (str ''soft_skills'', \<lparr>name = str ''Interpersonal Skills'', covered = False\<rparr>),
      (str ''knowledge_areas'', \<lparr>name = str ''Required Knowledge'', covered = False\<rparr>),
      (str ''success_factors'', \<lparr>name = str ''Top Performer Traits'', covered = False\<rparr>),
      (str ''challenges'', \<lparr>name = str ''Challenges'', covered = False\<rparr>),
      (str ''critical_incidents'', \<lparr>name = str ''Specific Examples'', covered = False\<rparr>)]"

text \<open>The list \<open>checks\<close> of \<open>update_coverage\<close>: each area key with its keywords.\<close>

definition checks :: "(pystr \<times> pystr list) list" where
  "checks =
     [(str ''core_responsibilities'',
         [str ''day-to-day'', str ''typical'', str ''responsibilities'', str ''tasks'', str ''week'']),
      (str ''technical_skills'',
         [str ''python'', str ''sql'', str ''tool'', str ''software'', str ''excel'', str ''code'']),
      (str ''soft_skills'',
         [str ''stakeholder'', str ''communicate'', str ''team'', str ''collaborate'', str ''meeting'']),
      (str ''knowledge_areas'',
         [str ''know'', str ''understand'', str ''learn'', str ''background'', str ''domain'']),
      (str ''success_factors'',
         [str ''great'', str ''top performer'', str ''best'', str ''successful'', str ''distinguish'']),
      (str ''challenges'',
         [str ''challenge'', str ''difficult'', str ''hard'', str ''frustrat'', str ''problem'']),
      (str ''critical_incidents'',
         [str ''example'', str ''recently'', str ''once'', str ''specific'', str ''instance''])]"

datatype py_error = KeyError pystr

text \<open>
  The \<open>for key, words in checks\<close> loop.  The dictionary is mutated in place, so the
  function returns its content when the loop is left, together with the exception that
  left it, if any: \<open>coverage[key]\<close> raises \<open>KeyError\<close> when the mapping has no such
  area, and the assignments made before that stay.
\<close>

fun update_loop :: "pystr \<Rightarrow> (pystr \<times> pystr list) list \<Rightarrow> coverage \<Rightarrow> coverage \<times> py_error option" where
  "update_loop m [] cov = (cov, None)"
| "update_loop m ((key, words) # rest) cov =
     (if list_ex (\<lambda>w. contains w m) words
      then (case cov key of
              None \<Rightarrow> (cov, Some (KeyError key))
            | Some a \<Rightarrow> update_loop m rest (cov(key \<mapsto> a\<lparr>covered := True\<rparr>)))
      else update_loop m rest cov)"

definition update_coverage :: "unicode_lower \<Rightarrow> pystr \<Rightarrow> coverage \<Rightarrow> coverage \<times> py_error option" where
  "update_coverage uni msg cov = update_loop (lower uni msg) checks cov"

text \<open>An area's flag as the sidebar reads it; an area the mapping lacks has none.\<close>

definition is_covered :: "coverage \<Rightarrow> pystr \<Rightarrow> bool" where
  "is_covered cov k = (case cov k of None \<Rightarrow> False | Some a \<Rightarrow> covered a)"

text \<open>
  A sequence of user messages fed to \<open>update_coverage\<close>, one after the other, on the
  same dictionary.
\<close>

fun feed :: "unicode_lower \<Rightarrow> coverage \<Rightarrow> pystr list \<Rightarrow> coverage" where
  "feed uni cov [] = cov"
| "feed uni cov (msg # msgs) = feed uni (fst (update_coverage uni msg cov)) msgs"

text \<open>The keywords of an area: those of its entries in \<open>checks\<close>.\<close>

definition keywords_of :: "pystr \<Rightarrow> pystr list" where
  "keywords_of k = concat (map snd (filter (\<lambda>(key, words). key = k) checks))"

text \<open>A coverage mapping that has every area the loop may assign to.\<close>

definition has_areas :: "coverage \<Rightarrow> bool" where
  "has_areas cov = list_all (\<lambda>(key, words). cov key \<noteq> None) checks"

text \<open>A lower-casing table that leaves every code point beyond ASCII as it is.\<close>

definition plain :: unicode_lower where
  "plain before c rest = [c]"

section \<open>Response sanitizer\<close>

text \<open>
  \<open>str.isspace\<close> of one code point, which is what \<open>strip()\<close> without arguments
  removes from both ends: the ASCII white space and separators, and the Unicode white
  space beyond ASCII.
\<close>

definition isspace :: "codepoint \<Rightarrow> bool" where
  "isspace c \<longleftrightarrow>
     (9 \<le> c \<and> c \<le> 13) \<or> (28 \<le> c \<and> c \<le> 32) \<or> c = 133 \<or> c = 160 \<or> c = 5760 \<or>
     (8192 \<le> c \<and> c \<le> 8202) \<or> c = 8232 \<or> c = 8233 \<or> c = 8239 \<or> c = 8287 \<or> c = 12288"

definition strip :: "pystr \<Rightarrow> pystr" where
  "strip s = rev (dropWhile isspace (rev (dropWhile isspace s)))"

text \<open>
  \<open>s.split(sep)\<close>: the pieces of \<open>s\<close> between the occurrences of \<open>sep\<close>, found from
  the left and not overlapping.  \<open>piece\<close> collects the piece being read.  Python raises
  \<open>ValueError\<close> for an empty separator; every separator of \<open>app.py\<close> is a non-empty
  literal, and here an empty one splits nothing.
\<close>

function split_from :: "pystr \<Rightarrow> pystr \<Rightarrow> pystr \<Rightarrow> pystr list" where
  "split_from sep piece [] = [piece]"
| "split_from sep piece (c # cs) =
     (if sep \<noteq> [] \<and> prefix sep (c # cs)
      then piece # split_from sep [] (drop (length sep) (c # cs))
      else split_from sep (piece @ [c]) cs)"
  by pat_completeness auto
termination
  by (relation "measure (\<lambda>(sep, piece, s). length s)") auto

definition split :: "pystr \<Rightarrow> pystr \<Rightarrow> pystr list" where
  "split s sep = split_from sep [] s"

text \<open>
  \<open>s.find(sub)\<close> and \<open>s.rfind(sub)\<close>: the index of the first and of the last occurrence
  of \<open>sub\<close> in \<open>s\<close>, and \<open>-1\<close> when there is none.  \<open>i\<close> is the index of the head
  of the text still to be searched.
\<close>

fun find_from :: "pystr \<Rightarrow> nat \<Rightarrow> pystr \<Rightarrow> int" where
  "find_from sub i [] = (if sub = [] then int i else - 1)"
| "find_from sub i (c # cs) = (if prefix sub (c # cs) then int i else find_from sub (Suc i) cs)"

definition find_py :: "pystr \<Rightarrow> pystr \<Rightarrow> int" where
  "find_py s sub = find_from sub 0 s"

fun rfind_from :: "pystr \<Rightarrow> nat \<Rightarrow> pystr \<Rightarrow> int" where
  "rfind_from sub i [] = (if sub = [] then int i else - 1)"
| "rfind_from sub i (c # cs) =
     (let later = rfind_from sub (Suc i) cs
      in if 0 \<le> later then later else if prefix sub (c # cs) then int i else - 1)"

definition rfind :: "pystr \<Rightarrow> pystr \<Rightarrow> int" where
  "rfind s sub = rfind_from sub 0 s"

text \<open>The leakage markers, in the order in which \<open>call_llm\<close> goes through them.\<close>

definition markers :: "pystr list" where
  "markers = [str ''COVERAGE'', str ''PROGRESS:'', str ''INTERNAL'', str ''exchanges'',
              [0x25D0], [0x25CB], [0x2713]]"

text \<open>The body of the marker loop.\<close>

definition strip_marker :: "pystr \<Rightarrow> pystr \<Rightarrow> pystr" where
  "strip_marker text marker =
     (if contains marker text then strip (hd (split text marker)) else text)"

text \<open>The removal of a trailing incomplete sentence.\<close>

definition trim_sentence :: "pystr \<Rightarrow> pystr" where
  "trim_sentence text =
     (if text \<noteq> [] \<and> \<not> contains [last text] (str ''.?!'')
      then (let last_period = max (rfind text (str ''.'')) (max (rfind text (str ''?'')) (rfind text (str ''!'')))
            in if last_period > 0 then take (nat (last_period + 1)) text else text)
      else text)"

definition fallback :: pystr where
  "fallback = str ''Could you tell me more about that?''"

text \<open>What \<open>call_llm\<close> does to the generated text between the call and its \<open>return\<close>.\<close>

definition sanitize :: "pystr \<Rightarrow> pystr" where
  "sanitize text0 =
     (let text = foldl strip_marker text0 markers;
          text = trim_sentence text
      in if text \<noteq> [] then text else fallback)"

section \<open>The generation service\<close>

text \<open>
  An exception caught by one of the two \<open>try\<close> blocks, with its \<open>str\<close>.  The handlers
  tell \<open>json.JSONDecodeError\<close> from every other \<open>Exception\<close>.
\<close>

datatype raised = JSONDecodeError pystr | OtherException pystr

fun exn_str :: "raised \<Rightarrow> pystr" where
  "exn_str (JSONDecodeError e) = e"
| "exn_str (OtherException e) = e"

text \<open>
  The remote service is opaque: a call either yields the text of the first content block
  of the response, or an exception is raised on the way to that text (by the call, or by
  the access to \<open>resp.content[0].text\<close>).
  The service is an oracle that gives the outcome of the call with a given number,
  counted from the start of the session; every function that calls it takes the number of
  calls made so far and returns the new number, so that the calls it makes are counted.
  What the oracle does with the request (model, token limit, system prompt, messages) is
  left open: the theorems hold for every oracle.  The arguments of \<open>call_llm\<close> and of
  \<open>generate_synthesis\<close> (the messages, the system prompt, the job title) are used for
  nothing but the request, whose composition raises nothing and changes no state, so they
  do not appear below.
\<close>

datatype outcome = Raised raised | Text pystr

type_synonym service = "nat \<Rightarrow> outcome"

record message =
  role :: pystr
  content :: pystr

definition call_llm :: "service \<Rightarrow> nat \<Rightarrow> pystr \<times> nat" where
  "call_llm svc n =
     (case svc n of
        Text text \<Rightarrow> (sanitize text, Suc n)
      | Raised e \<Rightarrow> (str ''Technical issue: '' @ take 50 (exn_str e), Suc n))"

section \<open>Synthesis engine\<close>

text \<open>\<open>s[a:b]\<close>: a negative bound counts from the end, and both are clamped to the text.\<close>

definition slice :: "pystr \<Rightarrow> int \<Rightarrow> int \<Rightarrow> pystr" where
  "slice s a b =
     (let n = int (length s);
          lo = (if a < 0 then max 0 (a + n) else min a n);
          hi = (if b < 0 then max 0 (b + n) else min b n)
      in drop (nat lo) (take (nat hi) s))"

text \<open>
  The dictionary \<open>generate_synthesis\<close> returns: the parsed document, or an error record
  \<open>{"error": \<dots>}\<close> that may carry the generated text under \<open>"raw"\<close>.  The type \<open>'j\<close> of
  parsed documents and the parser \<open>json.loads\<close> belong to the Python library, not to this
  repository: the parser is the parameter \<open>loads\<close>, which returns the document or the
  exception it raised.
\<close>

datatype 'j synthesis = Document 'j | Failure (error: pystr) (raw: "pystr option")

fun on_exception :: "raised \<Rightarrow> 'j synthesis" where
  "on_exception (JSONDecodeError e) = Failure (str ''JSON parse error: '' @ e) None"
| "on_exception (OtherException e) = Failure e None"

definition generate_synthesis ::
  "(pystr \<Rightarrow> raised + 'j) \<Rightarrow> service \<Rightarrow> nat \<Rightarrow> 'j synthesis \<times> nat" where
  "generate_synthesis loads svc n =
     (case svc n of
        Raised e \<Rightarrow> (on_exception e, Suc n)
      | Text text \<Rightarrow>
          (let start = find_py text (str ''{'');
               stop = rfind text (str ''}'') + 1
           in if start \<ge> 0 \<and> stop > start
              then (case loads (slice text start stop) of
                      Inr doc \<Rightarrow> (Document doc, Suc n)
                    | Inl e \<Rightarrow> (on_exception e, Suc n))
              else (Failure (str ''No JSON found'') (Some text), Suc n)))"

text \<open>The response of the synthesis example, and the document embedded in it.\<close>

definition example_document :: pystr where
  \<open>example_document = str ''{"job_title":"X","role_summary":"...", "knowledge":[],"skills":[],"abilities":[],"other_characteristics":[],"key_tasks":[],"gaps":[]}''\<close>

definition example_response :: pystr where
  "example_response = str ''Sure! '' @ example_document @ str '' thanks''"

section \<open>Interview loop\<close>

definition get_intro :: "pystr \<Rightarrow> bool \<Rightarrow> pystr" where
  "get_intro job_title has_context =
     (if has_context
      then str ''Hi! I'm here to learn about the **'' @ job_title @ str ''** role.'' @ [10, 10]
           @ str ''I've been given a formal description, but I want to understand how YOUR experience compares ''
           @ [0x2014] @ str '' where it aligns, differs, and what's missing.'' @ [10, 10]
           @ str ''**How would YOU describe the core purpose of a '' @ job_title @ str ''?**''
      else str ''Hi! I'm here to learn about the **'' @ job_title
           @ str ''** role through a brief conversation.'' @ [10, 10]
           @ str ''**Can you give me a high-level overview of what a '' @ job_title
           @ str '' actually does?**'')"

text \<open>
  \<open>st.session_state\<close> with the keys that \<open>main\<close> sets up.  \<open>ksao_result\<close> is \<open>None\<close>
  until a synthesis is stored.
\<close>

record 'j session =
  messages :: "message list"
  coverage :: coverage
  interview_complete :: bool
  ksao_result :: "'j synthesis option"
  initialized :: bool
  job_context :: pystr
  job_title :: pystr
  setup_complete :: bool

definition defaults :: "'j session" where
  "defaults = \<lparr>messages = [], coverage = COVERAGE_AREAS, interview_complete = False,
                ksao_result = None, initialized = False, job_context = [], job_title = [],
                setup_complete = False\<rparr>"

text \<open>
  What the Python runtime and the remote service contribute to a run of the script: the
  JSON parser, the truth value of a parsed document (an empty one is false), the
  lower-casing table and the service oracle.
\<close>

record 'j environment =
  json_loads :: "pystr \<Rightarrow> raised + 'j"
  json_truth :: "'j \<Rightarrow> bool"
  unicode :: unicode_lower
  service :: service

text \<open>
  The truth value of \<open>st.session_state.ksao_result\<close>: \<open>None\<close> is false, an error record
  is a non-empty dictionary.
\<close>

fun truthy :: "('j \<Rightarrow> bool) \<Rightarrow> 'j synthesis option \<Rightarrow> bool" where
  "truthy truth None = False"
| "truthy truth (Some (Document doc)) = truth doc"
| "truthy truth (Some (Failure e r)) = True"

text \<open>
  What the operator did to start a run of the script: nothing (a rerun), a click on one
  of the three buttons, or a submitted chat message.  \<open>StartInterview\<close> carries the
  content of the two fields of the setup form.
\<close>

datatype event = NoEvent | StartInterview pystr pystr | FinishInterview | Reset | ChatInput pystr

datatype ui = Warning pystr

text \<open>
  The outcome of one run of the script: the session state and the number of service calls
  at its end, the warnings it showed (the other rendering calls do not touch the state
  and are left out), whether it ended in \<open>st.rerun()\<close>, and the exception that ended it,
  if any.
\<close>

record 'j pass =
  state :: "'j session"
  calls :: nat
  shown :: "ui list"
  rerun :: bool
  crashed :: "py_error option"

definition exchange_count :: "'j session \<Rightarrow> nat" where
  "exchange_count s = length (filter (\<lambda>m. role m = str ''user'') (messages s))"

text \<open>The setup screen: the part of \<open>main\<close> under \<open>if not setup_complete\<close>.\<close>

definition setup_screen :: "event \<Rightarrow> 'j session \<Rightarrow> nat \<Rightarrow> 'j pass" where
  "setup_screen ev s n =
     (case ev of
        StartInterview title context \<Rightarrow>
          (if strip title \<noteq> []
           then \<lparr>state = s\<lparr>job_title := strip title, job_context := context, setup_complete := True\<rparr>,
                 calls = n, shown = [], rerun = True, crashed = None\<rparr>
           else \<lparr>state = s, calls = n, shown = [Warning (str ''Please enter a job title.'')],
                 rerun = False, crashed = None\<rparr>)
      | _ \<Rightarrow> \<lparr>state = s, calls = n, shown = [], rerun = False, crashed = None\<rparr>)"

text \<open>The chat input at the end of \<open>main\<close>, for a submitted non-empty \<open>prompt\<close>.\<close>

definition chat_turn :: "'j environment \<Rightarrow> pystr \<Rightarrow> 'j session \<Rightarrow> nat \<Rightarrow> ui list \<Rightarrow> 'j pass" where
  "chat_turn env prompt s n warnings =
     (let s1 = s\<lparr>messages := messages s @ [\<lparr>role = str ''user'', content = prompt\<rparr>]\<rparr>;
          (cov, exn) = update_coverage (unicode env) prompt (coverage s1)
      in case exn of
           Some e \<Rightarrow> \<lparr>state = s1\<lparr>coverage := cov\<rparr>, calls = n, shown = warnings,
                      rerun = False, crashed = Some e\<rparr>
         | None \<Rightarrow>
             (let s2 = s1\<lparr>coverage := cov\<rparr>;
                  (response, n') = call_llm (service env) n;
                  s3 = s2\<lparr>messages := messages s2 @ [\<lparr>role = str ''assistant'', content = response\<rparr>]\<rparr>
              in \<lparr>state = s3, calls = n', shown = warnings, rerun = False, crashed = None\<rparr>))"

text \<open>
  The rest of \<open>main\<close> after the sidebar: the transcript, then the report (which ends the
  run) or the chat input.
\<close>

definition after_sidebar :: "'j environment \<Rightarrow> event \<Rightarrow> 'j session \<Rightarrow> nat \<Rightarrow> ui list \<Rightarrow> 'j pass" where
  "after_sidebar env ev s n warnings =
     (if interview_complete s \<and> truthy (json_truth env) (ksao_result s)
      then \<lparr>state = s, calls = n, shown = warnings, rerun = False, crashed = None\<rparr>
      else (case ev of
              ChatInput prompt \<Rightarrow>
                (if prompt \<noteq> [] then chat_turn env prompt s n warnings
                 else \<lparr>state = s, calls = n, shown = warnings, rerun = False, crashed = None\<rparr>)
            | _ \<Rightarrow> \<lparr>state = s, calls = n, shown = warnings, rerun = False, crashed = None\<rparr>))"

text \<open>One run of the script \<open>main\<close>.\<close>

definition main_pass :: "'j environment \<Rightarrow> event \<Rightarrow> 'j session \<Rightarrow> nat \<Rightarrow> 'j pass" where
  "main_pass env ev s n =
     (if \<not> setup_complete s then setup_screen ev s n
      else
        (let s1 = (if \<not> initialized s
                   then s\<lparr>messages := messages s @
                            [\<lparr>role = str ''assistant'',
                              content = get_intro (job_title s) (job_context s \<noteq> [])\<rparr>],
                          initialized := True\<rparr>
                   else s);
             exchanges = exchange_count s1
         in case ev of
              FinishInterview \<Rightarrow>
                (if exchanges < 3
                 then after_sidebar env ev s1 n [Warning (str ''Complete at least 3 exchanges.'')]
                 else (let (result, n') = generate_synthesis (json_loads env) (service env) n
                       in \<lparr>state = s1\<lparr>ksao_result := Some result, interview_complete := True\<rparr>,
                           calls = n', shown = [], rerun = True, crashed = None\<rparr>))
            | Reset \<Rightarrow> \<lparr>state = defaults, calls = n, shown = [], rerun = True, crashed = None\<rparr>
            | _ \<Rightarrow> after_sidebar env ev s1 n []))"

text \<open>
  An operator action with the reruns it causes: \<open>st.rerun()\<close> starts the script again,
  with no widget triggered, and such a run never asks for another one.
\<close>

definition main :: "'j environment \<Rightarrow> event \<Rightarrow> 'j session \<Rightarrow> nat \<Rightarrow> 'j pass" where
  "main env ev s n =
     (let p = main_pass env ev s n
      in if rerun p
         then (let q = main_pass env NoEvent (state p) (calls p) in q\<lparr>shown := shown p @ shown q\<rparr>)
         else p)"

text \<open>The three states of the interview loop, read off the two flags of the session.\<close>

datatype phase = Setup | Interviewing | Complete

definition phase_of :: "'j session \<Rightarrow> phase" where
  "phase_of s = (if \<not> setup_complete s then Setup
                 else if interview_complete s then Complete else Interviewing)"

section \<open>Concrete inputs\<close>

text \<open>
  An environment whose parser returns the text it is given as the document, and whose
  service fails on its first call and returns the example response afterwards; and an
  interview in progress for the job title \<open>Analyst\<close>, with \<open>k\<close> user messages.
\<close>

definition demo_env :: "pystr environment" where
  "demo_env = \<lparr>json_loads = (\<lambda>s. Inr s), json_truth = (\<lambda>doc. doc \<noteq> []), unicode = plain,
               service = (\<lambda>n. if n = 0 then Raised (OtherException (str ''Connection error.''))
                               else Text example_response)\<rparr>"

definition demo_session :: "nat \<Rightarrow> pystr session" where
  "demo_session k = defaults\<lparr>
      messages := \<lparr>role = str ''assistant'', content = get_intro (str ''Analyst'') False\<rparr>
                  # replicate k \<lparr>role = str ''user'', content = str ''I write reports.''\<rparr>,
      initialized := True, job_title := str ''Analyst'', setup_complete := True\<rparr>"

section \<open>The sanitizer as described\<close>

text \<open>The part of \<open>s\<close> before the first occurrence of \<open>sub\<close>; all of \<open>s\<close> if there is none.\<close>

fun before :: "pystr \<Rightarrow> pystr \<Rightarrow> pystr" where
  "before sub [] = []"
| "before sub (c # cs) = (if prefix sub (c # cs) then [] else c # before sub cs)"

text \<open>The part of \<open>s\<close> before the first position at which any of the markers \<open>ms\<close> starts.\<close>

fun before_any :: "pystr list \<Rightarrow> pystr \<Rightarrow> pystr" where
  "before_any ms [] = []"
| "before_any ms (c # cs) =
     (if list_ex (\<lambda>m. prefix m (c # cs)) ms then [] else c # before_any ms cs)"

definition contains_any :: "pystr list \<Rightarrow> pystr \<Rightarrow> bool" where
  "contains_any ms s = list_ex (\<lambda>m. contains m s) ms"

text \<open>
  Truncation at the first occurrence of any marker, followed by the removal of the white
  space around what is kept.
\<close>

definition cut :: "pystr list \<Rightarrow> pystr \<Rightarrow> pystr" where
  "cut ms text = (if contains_any ms text then strip (before_any ms text) else text)"

text \<open>
  A marker that can join the markers \<open>ms\<close> gone through before it: it begins and ends
  with a code point that is not white space, and none of the earlier markers can begin
  inside it.
\<close>

definition ok_marker :: "pystr list \<Rightarrow> pystr \<Rightarrow> bool" where
  "ok_marker ms m \<longleftrightarrow> m \<noteq> [] \<and> \<not> isspace (hd m) \<and> \<not> isspace (last m) \<and>
     list_all (\<lambda>m'. m' \<noteq> [] \<and> hd m' \<notin> set (tl m)) ms"

definition is_terminal :: "codepoint \<Rightarrow> bool" where
  "is_terminal c \<longleftrightarrow> c \<in> set (str ''.?!'')"

text \<open>The text up to and including its last terminal punctuation mark; empty if it has none.\<close>

definition upto_last_terminal :: "pystr \<Rightarrow> pystr" where
  "upto_last_terminal t = rev (dropWhile (\<lambda>c. \<not> is_terminal c) (rev t))"

text \<open>
  The sanitizer in the words of its description: truncate at the first occurrence of any
  marker; if what is kept does not end in a terminal punctuation mark, truncate back to
  the last such mark, if one is found; if nothing is left, return the fallback question.
  \<open>tidy\<close> is what is done to the kept text after the truncation at a marker: nothing in
  the description (\<open>\<lambda>t. t\<close>), \<open>strip\<close> in the program.
\<close>

definition described_sanitize :: "(pystr \<Rightarrow> pystr) \<Rightarrow> pystr \<Rightarrow> pystr" where
  "described_sanitize tidy text =
     (let kept = (if contains_any markers text then tidy (before_any markers text) else text);
          kept = (if kept = [] \<or> is_terminal (last kept) \<or> upto_last_terminal kept = []
                  then kept else upto_last_terminal kept)
      in if kept = [] then fallback else kept)"

text \<open>A text of several code points whose only terminal punctuation mark is its first one.\<close>

definition lone_leading_mark :: "pystr \<Rightarrow> bool" where
  "lone_leading_mark t \<longleftrightarrow> 1 < length t \<and> length (upto_last_terminal t) = 1"

section \<open>Substrings and lower-casing\<close>

lemma contains_sublist: "contains sub s = sublist sub s"
  by (induction s) (simp_all add: sublist_Cons_right)

lemma lower_from_append:
  "\<exists>done. lower_from uni b (xs @ ys) = done @ lower_from uni (b @ xs) ys"
proof (induction xs arbitrary: b)
  case Nil
  show ?case by simp
next
  case (Cons x xs)
  from Cons[of "b @ [x]"] show ?case by auto
qed

lemma lower_from_ascii:
  "\<forall>c \<in> set xs. c < 128 \<Longrightarrow>
     lower_from uni b (xs @ ys) = map ascii_lower xs @ lower_from uni (b @ xs) ys"
  by (induction xs arbitrary: b) simp_all

lemma lower_contains:
  assumes "contains sub msg" and "\<forall>c \<in> set sub. c < 128"
  shows "contains (map ascii_lower sub) (lower uni msg)"
proof -
  from assms(1) obtain ps ss where "msg = ps @ sub @ ss"
    by (auto simp: contains_sublist sublist_def)
  moreover obtain front where "lower_from uni [] (ps @ sub @ ss) = front @ lower_from uni ([] @ ps) (sub @ ss)"
    using lower_from_append by blast
  ultimately have "lower uni msg = front @ map ascii_lower sub @ lower_from uni (ps @ sub) ss"
    by (simp add: lower_def lower_from_ascii assms(2))
  then show ?thesis
    unfolding contains_sublist sublist_def by blast
qed

lemma update_loop_flags:
  assumes "list_all (\<lambda>(key, words). cov key \<noteq> None) cs"
  shows "snd (update_loop m cs cov) = None \<and>
         (\<forall>k. is_covered (fst (update_loop m cs cov)) k \<longleftrightarrow>
              is_covered cov k \<or>
              list_ex (\<lambda>w. contains w m) (concat (map snd (filter (\<lambda>(key, words). key = k) cs))))"
  using assms
proof (induction cs arbitrary: cov)
  case Nil
  then show ?case by simp
next
  case (Cons c cs)
  obtain key words where c: "c = (key, words)" by (cases c)
  from Cons.prems c obtain a where a: "cov key = Some a" and rest: "list_all (\<lambda>(key, words). cov key \<noteq> None) cs"
    by auto
  show ?case
  proof (cases "list_ex (\<lambda>w. contains w m) words")
    case True
    let ?cov = "cov(key \<mapsto> a\<lparr>covered := True\<rparr>)"
    have "list_all (\<lambda>(key, words). ?cov key \<noteq> None) cs"
      using rest by (auto simp: list_all_iff)
    then have IH: "snd (update_loop m cs ?cov) = None \<and>
         (\<forall>k. is_covered (fst (update_loop m cs ?cov)) k \<longleftrightarrow>
              is_covered ?cov k \<or>
              list_ex (\<lambda>w. contains w m) (concat (map snd (filter (\<lambda>(key, words). key = k) cs))))"
      by (rule Cons.IH)
    have eq: "update_loop m (c # cs) cov = update_loop m cs ?cov"
      by (simp add: c True a)
    have "is_covered ?cov k \<longleftrightarrow> is_covered cov k \<or> key = k" for k
      by (simp add: is_covered_def a)
    with IH True show ?thesis
      unfolding eq by (auto simp: c)
  next
    case False
    from Cons.IH[OF rest] False c show ?thesis
      by (auto simp: list_ex_iff)
  qed
qed

lemma update_loop_mono:
  "is_covered cov k \<Longrightarrow> is_covered (fst (update_loop m cs cov)) k"
proof (induction cs arbitrary: cov)
  case Nil
  then show ?case by simp
next
  case (Cons c cs)
  obtain key words where c: "c = (key, words)" by (cases c)
  show ?case
  proof (cases "list_ex (\<lambda>w. contains w m) words \<and> cov key \<noteq> None")
    case True
    then obtain a where a: "cov key = Some a" by auto
    have "is_covered (cov(key \<mapsto> a\<lparr>covered := True\<rparr>)) k"
      using Cons.prems by (simp add: is_covered_def)
    then have "is_covered (fst (update_loop m cs (cov(key \<mapsto> a\<lparr>covered := True\<rparr>)))) k"
      by (rule Cons.IH)
    moreover have "update_loop m (c # cs) cov = update_loop m cs (cov(key \<mapsto> a\<lparr>covered := True\<rparr>))"
      using True by (simp add: c a)
    ultimately show ?thesis by simp
  next
    case False
    with Cons c show ?thesis by (auto split: option.splits)
  qed
qed

lemma feed_append: "feed uni cov (ms @ ms') = feed uni (feed uni cov ms) ms'"
  by (induction ms arbitrary: cov) simp_all

lemma feed_mono: "is_covered cov k \<Longrightarrow> is_covered (feed uni cov ms) k"
  by (induction ms arbitrary: cov) (simp_all add: update_coverage_def update_loop_mono)

section \<open>Splitting at a marker\<close>

lemma split_from_nonempty: "split_from sep piece s \<noteq> []"
  by (induction sep piece s rule: split_from.induct) simp_all

lemma hd_split_from: "sep \<noteq> [] \<Longrightarrow> hd (split_from sep piece s) = piece @ before sep s"
  by (induction sep piece s rule: split_from.induct) simp_all

lemma hd_split: "sep \<noteq> [] \<Longrightarrow> hd (split s sep) = before sep s"
  by (simp add: split_def hd_split_from)

lemma before_prefix: "prefix (before m s) s"
  by (induction s) simp_all

lemma before_absent: "\<not> contains m s \<Longrightarrow> before m s = s"
  by (induction s) simp_all

lemma before_decomp: "contains m s \<Longrightarrow> \<exists>q. s = before m s @ m @ q"
proof (induction s)
  case Nil
  then show ?case by simp
next
  case (Cons c cs)
  then show ?case by (auto simp: prefix_def)
qed

lemma contains_length: "contains m s \<Longrightarrow> length m \<le> length s"
  by (auto simp: contains_sublist sublist_def)

lemma before_clean: "m \<noteq> [] \<Longrightarrow> contains m s \<Longrightarrow> \<not> contains m (before m s @ butlast m)"
proof (induction s)
  case Nil
  then show ?case by simp
next
  case (Cons c cs)
  show ?case
  proof (cases "prefix m (c # cs)")
    case True
    have "length (butlast m) < length m" using Cons.prems(1) by simp
    then have "\<not> contains m (butlast m)" using contains_length by fastforce
    with True show ?thesis by simp
  next
    case False
    with Cons.prems have c: "contains m cs" by simp
    then obtain q where q: "cs = before m cs @ m @ q" using before_decomp by blast
    have "prefix (c # before m cs @ butlast m) (c # cs)"
    proof -
      have "prefix (butlast m) (m @ q)"
        by (metis append_butlast_last_id Cons.prems(1) prefix_def append.assoc)
      then have "prefix (before m cs @ butlast m) (before m cs @ m @ q)" by simp
      with q show ?thesis by simp
    qed
    with False have "\<not> prefix m (c # before m cs @ butlast m)"
      using prefix_order.trans by blast
    with False Cons.IH[OF Cons.prems(1) c] show ?thesis by simp
  qed
qed

lemma before_no_marker: "m \<noteq> [] \<Longrightarrow> \<not> contains m (before m s)"
proof (cases "contains m s")
  case True
  assume "m \<noteq> []"
  from before_clean[OF this True] show ?thesis
    unfolding contains_sublist using sublist_order.order_trans sublist_append_rightI by blast
next
  case False
  then show ?thesis by (simp add: before_absent)
qed

lemma before_restore:
  "m \<noteq> [] \<Longrightarrow> \<not> contains m (b @ butlast m) \<Longrightarrow> before m (b @ m @ q) = b"
proof (induction b)
  case Nil
  then show ?case by (cases m) simp_all
next
  case (Cons c b)
  have "\<not> prefix m (c # b @ m @ q)"
  proof
    assume p: "prefix m (c # b @ m @ q)"
    have "length m \<le> length (c # b @ butlast m)" by simp
    moreover have "prefix (c # b @ butlast m) (c # b @ m @ q)"
      by (metis Cons.prems(1) append.assoc append_butlast_last_id prefix_def Cons_prefix_Cons same_prefix_prefix)
    ultimately have "prefix m (c # b @ butlast m)"
      using p by (metis prefix_length_prefix)
    with Cons.prems(2) show False by simp
  qed
  moreover have "\<not> contains m (b @ butlast m)" using Cons.prems(2) by simp
  ultimately show ?case using Cons.IH[OF Cons.prems(1)] by simp
qed

lemma lstrip_before:
  "m \<noteq> [] \<Longrightarrow> \<not> isspace (hd m) \<Longrightarrow>
     before m (dropWhile isspace s) = dropWhile isspace (before m s)"
proof (induction s)
  case Nil
  then show ?case by simp
next
  case (Cons c cs)
  show ?case
  proof (cases "isspace c")
    case True
    with Cons.prems have "\<not> prefix m (c # cs)" by (cases m) auto
    with True Cons show ?thesis by simp
  next
    case False
    then show ?thesis by simp
  qed
qed

lemma lstrip_contains:
  "m \<noteq> [] \<Longrightarrow> \<not> isspace (hd m) \<Longrightarrow> contains m (dropWhile isspace s) = contains m s"
proof (induction s)
  case Nil
  then show ?case by simp
next
  case (Cons c cs)
  show ?case
  proof (cases "isspace c")
    case True
    with Cons.prems have "\<not> prefix m (c # cs)" by (cases m) auto
    with True Cons show ?thesis by simp
  next
    case False
    then show ?thesis by simp
  qed
qed

lemma rstrip_keep:
  assumes "m \<noteq> []" "\<not> isspace (last m)"
  shows "rev (dropWhile isspace (rev (p @ m @ q))) = p @ m @ rev (dropWhile isspace (rev q))"
proof -
  from assms(1) obtain m' x where m: "m = m' @ [x]" by (cases m rule: rev_cases) auto
  with assms(2) have x: "\<not> isspace x" by simp
  have "dropWhile isspace (rev q @ x # (rev m' @ rev p)) = dropWhile isspace (rev q) @ x # (rev m' @ rev p)"
    using x by (rule dropWhile_append3)
  then show ?thesis by (simp add: m)
qed

lemma strip_marker_alt:
  "m \<noteq> [] \<Longrightarrow> strip_marker text m = (if contains m text then strip (before m text) else text)"
  by (simp add: strip_marker_def hd_split)

lemma strip_lstrip: "strip (dropWhile isspace s) = strip s"
  by (simp add: strip_def)

lemma strip_sublist: "sublist (strip s) s"
proof -
  have "sublist (rev (dropWhile isspace (rev (dropWhile isspace s)))) (dropWhile isspace s)"
    by (metis sublist_dropWhile sublist_rev_left)
  then show ?thesis
    unfolding strip_def using sublist_order.order_trans sublist_dropWhile by blast
qed

lemma strip_before:
  assumes "m \<noteq> []" "\<not> isspace (hd m)" "\<not> isspace (last m)"
  shows "strip_marker (strip b) m = strip (before m b)"
proof (cases "contains m b")
  case True
  let ?l = "dropWhile isspace b"
  have cl: "contains m ?l" using True assms by (simp add: lstrip_contains)
  then obtain q where q: "?l = before m ?l @ m @ q" using before_decomp by blast
  obtain q' where q': "rev (dropWhile isspace (rev (before m ?l @ m @ q))) = before m ?l @ m @ q'"
    using rstrip_keep[OF assms(1,3)] by blast
  have sb: "strip b = before m ?l @ m @ q'"
    using q q' by (simp add: strip_def)
  have clean: "\<not> contains m (before m ?l @ butlast m)"
    using before_clean[OF assms(1) cl] .
  have "before m (strip b) = before m ?l"
    unfolding sb using before_restore[OF assms(1) clean] .
  moreover have "contains m (strip b)"
    unfolding sb contains_sublist by simp
  ultimately have "strip_marker (strip b) m = strip (before m ?l)"
    using assms(1) by (simp add: strip_marker_alt)
  also have "\<dots> = strip (before m b)"
    using assms by (simp add: lstrip_before strip_lstrip)
  finally show ?thesis .
next
  case False
  then have "\<not> contains m (strip b)"
    unfolding contains_sublist using strip_sublist sublist_order.order_trans by blast
  with False assms(1) show ?thesis by (simp add: strip_marker_alt before_absent)
qed

section \<open>The marker loop truncates at the first marker\<close>

lemma before_any_decomp:
  "\<exists>r. s = before_any ms s @ r \<and> (r = [] \<or> list_ex (\<lambda>m. prefix m r) ms)"
proof (induction s)
  case Nil
  then show ?case by simp
next
  case (Cons c cs)
  show ?case
  proof (cases "list_ex (\<lambda>m. prefix m (c # cs)) ms")
    case True
    then show ?thesis by simp
  next
    case False
    with Cons show ?thesis by auto
  qed
qed

lemma before_any_prefix: "prefix (before_any ms s) s"
  using before_any_decomp[of s ms] by (metis prefixI)

lemma before_any_absent: "\<not> contains_any ms s \<Longrightarrow> before_any ms s = s"
  by (induction s) (auto simp: contains_any_def list_ex_iff)

lemma contains_any_snoc: "contains_any (ms @ [m]) s \<longleftrightarrow> contains_any ms s \<or> contains m s"
  by (auto simp: contains_any_def list_ex_iff)

lemma before_any_snoc:
  assumes "list_all (\<lambda>m'. m' \<noteq> [] \<and> hd m' \<notin> set (tl m)) ms"
  shows "before_any (ms @ [m]) s = before m (before_any ms s)"
proof (induction s)
  case Nil
  then show ?case by simp
next
  case (Cons c cs)
  show ?case
  proof (cases "list_ex (\<lambda>m'. prefix m' (c # cs)) ms")
    case True
    then show ?thesis by simp
  next
    case False
    let ?b = "before_any ms cs"
    have "prefix m (c # cs) \<longleftrightarrow> prefix m (c # ?b)"
    proof
      assume "prefix m (c # ?b)"
      moreover have "prefix (c # ?b) (c # cs)" by (simp add: before_any_prefix)
      ultimately show "prefix m (c # cs)" using prefix_order.trans by blast
    next
      assume p: "prefix m (c # cs)"
      obtain r where r: "cs = ?b @ r" "r = [] \<or> list_ex (\<lambda>m'. prefix m' r) ms"
        using before_any_decomp by blast
      show "prefix m (c # ?b)"
      proof (cases "length m \<le> length (c # ?b)")
        case True
        have "prefix (c # ?b) (c # cs)" by (simp add: before_any_prefix)
        with p True show ?thesis by (metis prefix_length_prefix)
      next
        case long: False
        then have "r \<noteq> []" using p r(1) by (auto dest: prefix_length_le)
        with r(2) obtain m' where m': "m' \<in> set ms" "prefix m' r" by (auto simp: list_ex_iff)
        with assms have ne: "m' \<noteq> []" and hd: "hd m' \<notin> set (tl m)" by (auto simp: list_all_iff)
        from ne m'(2) obtain r' where r': "r = hd m' # r'" by (cases m'; cases r) auto
        from p obtain z where "c # ?b @ hd m' # r' = m @ z" using r(1) r' by (auto simp: prefix_def)
        moreover from long have "length (c # ?b) < length m" by simp
        ultimately have "hd m' \<in> set (tl m)"
          by (cases m) (auto simp: append_eq_append_conv2 Cons_eq_append_conv append_eq_Cons_conv)
        with hd show ?thesis by simp
      qed
    qed
    with False Cons show ?thesis by simp
  qed
qed

lemma cut_step:
  assumes "ok_marker ms m"
  shows "strip_marker (cut ms text) m = cut (ms @ [m]) text"
proof -
  from assms have m: "m \<noteq> []" "\<not> isspace (hd m)" "\<not> isspace (last m)"
    and ms: "list_all (\<lambda>m'. m' \<noteq> [] \<and> hd m' \<notin> set (tl m)) ms"
    by (simp_all add: ok_marker_def)
  show ?thesis
  proof (cases "contains_any ms text")
    case True
    then show ?thesis
      by (simp add: cut_def contains_any_snoc strip_before[OF m] before_any_snoc[OF ms])
  next
    case False
    then show ?thesis
      using m(1) by (simp add: cut_def contains_any_snoc strip_marker_alt before_any_snoc[OF ms] before_any_absent)
  qed
qed

lemma cut_Nil: "cut [] text = text"
  by (simp add: cut_def contains_any_def)

lemma marker_loop_cut: "foldl strip_marker text markers = cut markers text"
proof -
  let ?m1 = "str ''COVERAGE''" and ?m2 = "str ''PROGRESS:''" and ?m3 = "str ''INTERNAL''"
    and ?m4 = "str ''exchanges''" and ?m5 = "[0x25D0::nat]" and ?m6 = "[0x25CB::nat]" and ?m7 = "[0x2713::nat]"
  have 1: "ok_marker [] ?m1" by (simp add: ok_marker_def isspace_def str_def)
  have 2: "ok_marker [?m1] ?m2" by (simp add: ok_marker_def isspace_def str_def)
  have 3: "ok_marker [?m1, ?m2] ?m3" by (simp add: ok_marker_def isspace_def str_def)
  have 4: "ok_marker [?m1, ?m2, ?m3] ?m4" by (simp add: ok_marker_def isspace_def str_def)
  have 5: "ok_marker [?m1, ?m2, ?m3, ?m4] ?m5" by (simp add: ok_marker_def isspace_def str_def)
  have 6: "ok_marker [?m1, ?m2, ?m3, ?m4, ?m5] ?m6" by (simp add: ok_marker_def isspace_def str_def)
  have 7: "ok_marker [?m1, ?m2, ?m3, ?m4, ?m5, ?m6] ?m7" by (simp add: ok_marker_def isspace_def str_def)
  have "foldl strip_marker text markers =
        strip_marker (strip_marker (strip_marker (strip_marker (strip_marker (strip_marker
          (strip_marker (cut [] text) ?m1) ?m2) ?m3) ?m4) ?m5) ?m6) ?m7"
    by (simp only: markers_def foldl.simps cut_Nil)
  also have "\<dots> = cut [?m1, ?m2, ?m3, ?m4, ?m5, ?m6, ?m7] text"
    using cut_step[OF 1] cut_step[OF 2] cut_step[OF 3] cut_step[OF 4] cut_step[OF 5]
      cut_step[OF 6] cut_step[OF 7] by (simp only: append.simps)
  finally show ?thesis by (simp only: markers_def)
qed

section \<open>Sentence truncation\<close>

lemma is_terminal_iff: "is_terminal c \<longleftrightarrow> c = 46 \<or> c = 63 \<or> c = 33"
  by (auto simp: is_terminal_def str_def)

lemma in_terminal: "contains [c] (str ''.?!'') \<longleftrightarrow> is_terminal c"
  by (auto simp: is_terminal_iff str_def)

lemma upto_Cons:
  "upto_last_terminal (c # cs) =
     (if upto_last_terminal cs = [] then (if is_terminal c then [c] else [])
      else c # upto_last_terminal cs)"
  by (simp add: upto_last_terminal_def dropWhile_append dropWhile_eq_Nil_conv)

lemma upto_Nil: "upto_last_terminal [] = []"
  by (simp add: upto_last_terminal_def)

lemma upto_prefix: "prefix (upto_last_terminal t) t"
  by (induction t) (simp_all add: upto_Cons upto_Nil)

lemma rfind_terminal:
  "max (rfind_from [46] i s) (max (rfind_from [63] i s) (rfind_from [33] i s)) =
     (if upto_last_terminal s = [] then - 1
      else int i + int (length (upto_last_terminal s)) - 1)"
proof (induction s arbitrary: i)
  case Nil
  then show ?case by (simp add: upto_last_terminal_def)
next
  case (Cons c cs)
  show ?case
  proof (cases "upto_last_terminal cs = []")
    case True
    with Cons[of "Suc i"] have "rfind_from [46] (Suc i) cs < 0" "rfind_from [63] (Suc i) cs < 0"
      "rfind_from [33] (Suc i) cs < 0" by simp_all
    with True show ?thesis by (auto simp: upto_Cons is_terminal_iff Let_def)
  next
    case False
    with Cons[of "Suc i"] have
      "max (rfind_from [46] (Suc i) cs) (max (rfind_from [63] (Suc i) cs) (rfind_from [33] (Suc i) cs))
         = int i + int (length (upto_last_terminal cs))" by simp
    moreover have "0 < length (upto_last_terminal cs)" using False by simp
    ultimately show ?thesis using False by (simp add: upto_Cons Let_def max_def split: if_splits)
  qed
qed

lemma trim_sentence_alt:
  "trim_sentence t =
     (if t \<noteq> [] \<and> \<not> is_terminal (last t) \<and> 1 < length (upto_last_terminal t)
      then upto_last_terminal t else t)"
proof -
  have m: "max (rfind t (str ''.'')) (max (rfind t (str ''?'')) (rfind t (str ''!''))) =
        (if upto_last_terminal t = [] then - 1 else int (length (upto_last_terminal t)) - 1)"
    using rfind_terminal[of 0 t] by (simp add: rfind_def str_def)
  have "take (length (upto_last_terminal t)) t = upto_last_terminal t"
    using upto_prefix[of t] by (metis append_eq_conv_conj prefix_def)
  then show ?thesis
    unfolding trim_sentence_def m in_terminal Let_def
    by (auto simp: nat_diff_distrib)
qed

section \<open>Properties of the sanitizer\<close>

lemma trim_sentence_prefix: "prefix (trim_sentence t) t"
  by (simp add: trim_sentence_alt upto_prefix)

lemma sanitize_alt:
  "sanitize text = (let t = trim_sentence (cut markers text) in if t \<noteq> [] then t else fallback)"
  by (simp add: sanitize_def marker_loop_cut)

lemma before_any_clean:
  "list_all (\<lambda>m. m \<noteq> []) ms \<Longrightarrow> \<not> contains_any ms (before_any ms s)"
proof (induction s)
  case Nil
  then show ?case by (auto simp: contains_any_def list_ex_iff list_all_iff)
next
  case (Cons c cs)
  show ?case
  proof (cases "list_ex (\<lambda>m. prefix m (c # cs)) ms")
    case True
    with Cons.prems show ?thesis by (auto simp: contains_any_def list_ex_iff list_all_iff)
  next
    case False
    have "\<not> prefix m (c # before_any ms cs)" if "m \<in> set ms" for m
    proof
      assume "prefix m (c # before_any ms cs)"
      moreover have "prefix (c # before_any ms cs) (c # cs)" by (simp add: before_any_prefix)
      ultimately have "prefix m (c # cs)" using prefix_order.trans by blast
      with False that show False by (auto simp: list_ex_iff)
    qed
    with False Cons show ?thesis by (auto simp: contains_any_def list_ex_iff)
  qed
qed

lemma contains_any_sublist:
  "sublist t s \<Longrightarrow> \<not> contains_any ms s \<Longrightarrow> \<not> contains_any ms t"
  unfolding contains_any_def list_ex_iff contains_sublist
  using sublist_order.order_trans by blast

lemma cut_clean: "\<not> contains_any markers (cut markers text)"
proof (cases "contains_any markers text")
  case True
  have "list_all (\<lambda>m. m \<noteq> []) markers" by (simp add: markers_def str_def)
  from before_any_clean[OF this] have "\<not> contains_any markers (before_any markers text)" .
  with strip_sublist have "\<not> contains_any markers (strip (before_any markers text))"
    using contains_any_sublist by blast
  with True show ?thesis by (simp add: cut_def)
next
  case False
  then show ?thesis by (simp add: cut_def)
qed

lemma fallback_clean: "\<not> contains_any markers fallback"
  by (simp add: contains_any_def markers_def fallback_def str_def)

lemma sanitize_clean: "\<not> contains_any markers (sanitize text)"
proof -
  have "\<not> contains_any markers (trim_sentence (cut markers text))"
    using contains_any_sublist[OF prefix_imp_sublist[OF trim_sentence_prefix] cut_clean] .
  then show ?thesis using fallback_clean by (simp add: sanitize_alt Let_def)
qed

lemma before_any_member: "m \<in> set ms \<Longrightarrow> prefix (before_any ms s) (before m s)"
  by (induction s) (auto simp: list_ex_iff)

lemma sanitize_from_before:
  assumes "m \<in> set markers" "contains m text"
  shows "sanitize text = fallback \<or> sublist (sanitize text) (before m text)"
proof -
  let ?b = "before_any markers text"
  from assms have "contains_any markers text" by (auto simp: contains_any_def list_ex_iff)
  then have c: "cut markers text = strip ?b" by (simp add: cut_def)
  have "sublist (trim_sentence (strip ?b)) (strip ?b)"
    using trim_sentence_prefix by blast
  also have "sublist (strip ?b) ?b" by (rule strip_sublist)
  also have "sublist ?b (before m text)" using before_any_member[OF assms(1)] by blast
  finally show ?thesis by (auto simp: sanitize_alt c Let_def)
qed

lemma upto_last: "upto_last_terminal t \<noteq> [] \<Longrightarrow> is_terminal (last (upto_last_terminal t))"
  unfolding upto_last_terminal_def
  using hd_dropWhile[of "\<lambda>c. \<not> is_terminal c" "rev t"] by (simp add: last_rev)

lemma upto_shorter:
  assumes "t \<noteq> []" "\<not> is_terminal (last t)"
  shows "length (upto_last_terminal t) < length t"
proof -
  have "upto_last_terminal t \<noteq> t"
    using assms upto_last[of t] by auto
  moreover obtain zs where "t = upto_last_terminal t @ zs"
    using upto_prefix[of t] by (auto simp: prefix_def)
  ultimately have "zs \<noteq> []" by auto
  then have "length (upto_last_terminal t) < length (upto_last_terminal t @ zs)" by simp
  with \<open>t = upto_last_terminal t @ zs\<close> show ?thesis by simp
qed

lemma trim_sentence_refines:
  assumes "\<not> lone_leading_mark t"
  shows "trim_sentence t =
      (if t = [] \<or> is_terminal (last t) \<or> upto_last_terminal t = [] then t else upto_last_terminal t)"
proof (cases "t \<noteq> [] \<and> \<not> is_terminal (last t) \<and> upto_last_terminal t \<noteq> []")
  case True
  then have "length (upto_last_terminal t) < length t" by (simp add: upto_shorter)
  moreover have "0 < length (upto_last_terminal t)" using True by simp
  ultimately have "1 < length (upto_last_terminal t)"
    using assms unfolding lone_leading_mark_def by linarith
  with True show ?thesis by (simp add: trim_sentence_alt)
next
  case False
  then have "trim_sentence t = t" unfolding trim_sentence_alt by auto
  with False show ?thesis by auto
qed

lemma sanitize_refines:
  assumes "\<not> lone_leading_mark (cut markers text)"
  shows "sanitize text = described_sanitize strip text"
proof -
  define t where "t = cut markers text"
  define t' where "t' = trim_sentence t"
  have "t' = (if t = [] \<or> is_terminal (last t) \<or> upto_last_terminal t = [] then t
              else upto_last_terminal t)"
    unfolding t'_def using assms trim_sentence_refines t_def by blast
  moreover have "t = (if contains_any markers text then strip (before_any markers text) else text)"
    by (simp add: t_def cut_def)
  ultimately have "described_sanitize strip text = (if t' = [] then fallback else t')"
    unfolding described_sanitize_def Let_def by simp
  moreover have "sanitize text = (if t' \<noteq> [] then t' else fallback)"
    by (simp add: sanitize_alt t'_def t_def Let_def)
  ultimately show ?thesis by simp
qed

lemma sanitize_unchanged:
  assumes "text \<noteq> []" "is_terminal (last text)" "\<not> contains_any markers text"
  shows "sanitize text = text"
proof -
  have "cut markers text = text" using assms(3) by (simp add: cut_def)
  moreover have "trim_sentence text = text" using assms(2) by (simp add: trim_sentence_alt)
  ultimately show ?thesis using assms(1) by (simp add: sanitize_alt)
qed

section \<open>Locating the braces\<close>

lemma find_from_fresh:
  "c \<notin> set pre \<Longrightarrow> find_from [c] i (pre @ c # rest) = int (i + length pre)"
  by (induction pre arbitrary: i) auto

lemma rfind_from_absent: "c \<notin> set s \<Longrightarrow> rfind_from [c] i s = - 1"
  by (induction s arbitrary: i) (auto simp: Let_def)

lemma rfind_from_fresh:
  "c \<notin> set post \<Longrightarrow> rfind_from [c] i (xs @ c # post) = int (i + length xs)"
  by (induction xs arbitrary: i) (auto simp: Let_def rfind_from_absent)

lemma slice_middle:
  "slice (pre @ body @ post) (int (length pre)) (int (length pre + length body)) = body"
  by (simp add: slice_def Let_def)

lemma synthesis_embedded:
  assumes "123 \<notin> set pre" "125 \<notin> set post" "svc n = Text (pre @ [123] @ mid @ [125] @ post)"
  shows "generate_synthesis loads svc n =
           ((case loads ([123] @ mid @ [125]) of Inr doc \<Rightarrow> Document doc | Inl e \<Rightarrow> on_exception e), Suc n)"
proof -
  let ?text = "pre @ [123] @ mid @ [125] @ post"
  have f: "find_py ?text (str ''{'') = int (length pre)"
    using find_from_fresh[OF assms(1), of 0 "mid @ [125] @ post"] by (simp add: find_py_def str_def)
  have r: "rfind ?text (str ''}'') = int (length pre + 1 + length mid)"
    using rfind_from_fresh[OF assms(2), of 0 "pre @ [123] @ mid"] by (simp add: rfind_def str_def)
  have s: "slice ?text (int (length pre)) (int (length pre + 1 + length mid) + 1) = [123] @ mid @ [125]"
    using slice_middle[of pre "[123] @ mid @ [125]" post] by (simp add: add.commute add.left_commute)
  show ?thesis
    unfolding generate_synthesis_def assms(3) outcome.case f r Let_def s
    by (simp split: sum.splits)
qed

lemma find_from_hit:
  "0 \<le> find_from [c] i s \<Longrightarrow> i \<le> nat (find_from [c] i s) \<and> nat (find_from [c] i s) - i < length s \<and> s ! (nat (find_from [c] i s) - i) = c"
proof (induction s arbitrary: i)
  case Nil
  then show ?case by simp
next
  case (Cons a s)
  show ?case
  proof (cases "a = c")
    case True
    then show ?thesis by simp
  next
    case False
    with Cons.prems have p: "0 \<le> find_from [c] (Suc i) s" by simp
    from Cons.IH[OF p] False show ?thesis by (auto simp: Suc_diff_le nth_Cons')
  qed
qed

lemma rfind_from_hit:
  "0 \<le> rfind_from [c] i s \<Longrightarrow> i \<le> nat (rfind_from [c] i s) \<and> nat (rfind_from [c] i s) - i < length s \<and> s ! (nat (rfind_from [c] i s) - i) = c"
proof (induction s arbitrary: i)
  case Nil
  then show ?case by simp
next
  case (Cons a s)
  show ?case
  proof (cases "0 \<le> rfind_from [c] (Suc i) s")
    case True
    from Cons.IH[OF True] True show ?thesis by (auto simp: Let_def Suc_diff_le nth_Cons')
  next
    case False
    with Cons.prems show ?thesis by (auto simp: Let_def split: if_splits)
  qed
qed

lemma find_from_absent: "find_from sub i s = - 1 \<longleftrightarrow> \<not> contains sub s"
  by (induction s arbitrary: i) auto

lemma find_from_range: "find_from sub i s = - 1 \<or> 0 \<le> find_from sub i s"
  by (induction s arbitrary: i) auto

lemma no_region:
  assumes "\<not> contains (str ''{'') text \<or> rfind text (str ''}'') \<le> find_py text (str ''{'')"
  shows "\<not> (0 \<le> find_py text (str ''{'') \<and> find_py text (str ''{'') < rfind text (str ''}'') + 1)"
proof
  assume a: "0 \<le> find_py text (str ''{'') \<and> find_py text (str ''{'') < rfind text (str ''}'') + 1"
  then have "contains (str ''{'') text"
    using find_from_absent[of "str ''{''" 0 "text"] by (auto simp: find_py_def)
  with assms a have e: "rfind text (str ''}'') = find_py text (str ''{'')" by auto
  with a have r: "0 \<le> rfind_from [125] 0 text" and f: "0 \<le> find_from [123] 0 text"
    by (simp_all add: rfind_def find_py_def str_def)
  from rfind_from_hit[OF r] find_from_hit[OF f] e show False
    by (simp add: rfind_def find_py_def str_def)
qed

section \<open>Keyword matching on concrete messages\<close>

lemma update_coverage_returns: "has_areas cov \<Longrightarrow> snd (update_coverage uni msg cov) = None"
  using update_loop_flags[of cov checks] by (simp add: has_areas_def update_coverage_def)

lemma example_lowered:
  "contains (str ''recently I had an example'') msg \<Longrightarrow> contains (str ''example'') (lower uni msg)"
proof -
  assume "contains (str ''recently I had an example'') msg"
  moreover have "\<forall>c \<in> set (str ''recently I had an example''). c < 128" by (simp add: str_def)
  ultimately have "contains (map ascii_lower (str ''recently I had an example'')) (lower uni msg)"
    by (rule lower_contains)
  moreover have "sublist (str ''example'') (map ascii_lower (str ''recently I had an example''))"
    unfolding contains_sublist[symmetric] by (simp add: str_def ascii_lower_def)
  ultimately show ?thesis
    unfolding contains_sublist using sublist_order.order_trans by blast
qed

lemma hello_no_keyword: "update_coverage uni (str ''hello'') cov = (cov, None)"
  by (simp add: update_coverage_def lower_def ascii_lower_def checks_def str_def)

section \<open>Coverage tracker: the flags\<close>

text \<open>
  Claim C1.  Coverage flags are monotonic.  For every coverage mapping \<open>cov\<close>, every
  lower-casing table and every sequence of user messages fed to \<open>update_coverage\<close>: an
  area whose flag is true after the messages \<open>ms\<close> still has it true after any further
  messages \<open>ms'\<close>.  The flags are read from the dictionary as the calls leave it, also
  when a call is left by \<open>KeyError\<close>, so no call sets a flag from true back to false.
\<close>

theorem coverage_monotonic:
  "is_covered (feed uni cov ms) k \<Longrightarrow> is_covered (feed uni cov (ms @ ms')) k"
  by (simp add: feed_append feed_mono)

theorem coverage_monotonic_witness:
  "is_covered (feed plain COVERAGE_AREAS [str ''recently I had an example'']) (str ''critical_incidents'')
   \<and> is_covered (feed plain COVERAGE_AREAS ([str ''recently I had an example''] @ [str ''hello'']))
        (str ''critical_incidents'')"
proof -
  have h: "is_covered (feed plain COVERAGE_AREAS [str ''recently I had an example'']) (str ''critical_incidents'')"
    by (simp add: update_coverage_def lower_def ascii_lower_def checks_def COVERAGE_AREAS_def is_covered_def str_def)
  from h coverage_monotonic[OF h] show ?thesis by blast
qed

text \<open>
  Claim C7.  For a coverage mapping that has the seven areas, \<open>update_coverage\<close> returns
  normally, and afterwards the flag of an area is true exactly when it was true before or
  the lower-cased message contains one of the keywords of that area; a message that
  contains \<open>recently I had an example\<close> gets \<open>critical_incidents\<close> covered.  For every
  mapping, the message \<open>hello\<close> leaves the mapping as it was.
\<close>

theorem update_coverage_flags:
  "(has_areas cov \<longrightarrow>
      snd (update_coverage uni msg cov) = None \<and>
      (\<forall>k. is_covered (fst (update_coverage uni msg cov)) k \<longleftrightarrow>
             is_covered cov k \<or> list_ex (\<lambda>w. contains w (lower uni msg)) (keywords_of k)) \<and>
      (contains (str ''recently I had an example'') msg \<longrightarrow>
         is_covered (fst (update_coverage uni msg cov)) (str ''critical_incidents''))) \<and>
   update_coverage uni (str ''hello'') cov = (cov, None)"
proof -
  have flags: "snd (update_coverage uni msg cov) = None \<and>
      (\<forall>k. is_covered (fst (update_coverage uni msg cov)) k \<longleftrightarrow>
             is_covered cov k \<or> list_ex (\<lambda>w. contains w (lower uni msg)) (keywords_of k))"
    if "has_areas cov"
    using update_loop_flags[of cov checks "lower uni msg"] that
    by (simp add: has_areas_def update_coverage_def keywords_of_def)
  have "list_ex (\<lambda>w. contains w (lower uni msg)) (keywords_of (str ''critical_incidents''))"
    if "contains (str ''recently I had an example'') msg"
  proof -
    have "str ''example'' \<in> set (keywords_of (str ''critical_incidents''))"
      by (simp add: keywords_of_def checks_def str_def)
    with example_lowered[OF that] show ?thesis unfolding list_ex_iff by blast
  qed
  with flags hello_no_keyword show ?thesis by blast
qed

theorem update_coverage_flags_witness:
  "has_areas COVERAGE_AREAS
   \<and> is_covered (fst (update_coverage plain (str ''Recently I had an example'') COVERAGE_AREAS))
        (str ''critical_incidents'')
   \<and> \<not> is_covered (fst (update_coverage plain (str ''Recently I had an example'') COVERAGE_AREAS))
        (str ''challenges'')
   \<and> update_coverage plain (str ''hello'') COVERAGE_AREAS = (COVERAGE_AREAS, None)"
proof -
  have h: "has_areas COVERAGE_AREAS"
    by (simp add: has_areas_def checks_def COVERAGE_AREAS_def str_def)
  have 1: "list_ex (\<lambda>w. contains w (lower plain (str ''Recently I had an example'')))
            (keywords_of (str ''critical_incidents''))"
    by (simp add: keywords_of_def checks_def lower_def ascii_lower_def str_def)
  have 2: "\<not> list_ex (\<lambda>w. contains w (lower plain (str ''Recently I had an example'')))
            (keywords_of (str ''challenges''))"
    by (simp add: keywords_of_def checks_def lower_def ascii_lower_def str_def)
  have 3: "\<not> is_covered COVERAGE_AREAS (str ''challenges'')"
    by (simp add: is_covered_def COVERAGE_AREAS_def str_def)
  from update_coverage_flags[of COVERAGE_AREAS plain "str ''Recently I had an example''"] h 1 2 3
  show ?thesis by blast
qed

section \<open>Runs of the script\<close>

lemma update_loop_keeps_areas:
  "cov k \<noteq> None \<Longrightarrow> fst (update_loop m cs cov) k \<noteq> None"
proof (induction cs arbitrary: cov)
  case Nil
  then show ?case by simp
next
  case (Cons c cs)
  obtain key words where c: "c = (key, words)" by (cases c)
  show ?case
  proof (cases "list_ex (\<lambda>w. contains w m) words \<and> cov key \<noteq> None")
    case True
    then obtain a where a: "cov key = Some a" by auto
    have "(cov(key \<mapsto> a\<lparr>covered := True\<rparr>)) k \<noteq> None"
      using Cons.prems by simp
    then have "fst (update_loop m cs (cov(key \<mapsto> a\<lparr>covered := True\<rparr>))) k \<noteq> None"
      by (rule Cons.IH)
    moreover have "update_loop m (c # cs) cov = update_loop m cs (cov(key \<mapsto> a\<lparr>covered := True\<rparr>))"
      using True by (simp add: c a)
    ultimately show ?thesis by simp
  next
    case False
    with Cons c show ?thesis by (auto split: option.splits)
  qed
qed

lemma update_coverage_keeps_areas:
  "has_areas cov \<Longrightarrow> has_areas (fst (update_coverage uni msg cov))"
  unfolding has_areas_def list_all_iff update_coverage_def
  using update_loop_keeps_areas by fastforce

lemma generate_synthesis_calls: "snd (generate_synthesis loads svc n) = Suc n"
  by (simp add: generate_synthesis_def Let_def split: outcome.splits sum.splits)

lemma rerun_pass:
  "setup_complete s \<Longrightarrow> initialized s \<Longrightarrow>
     main_pass env NoEvent s n = \<lparr>state = s, calls = n, shown = [], rerun = False, crashed = None\<rparr>"
  by (simp add: main_pass_def after_sidebar_def Let_def)

lemma finish_rejected:
  assumes "setup_complete s" "initialized s" "exchange_count s < 3"
  shows "main env FinishInterview s n =
           \<lparr>state = s, calls = n, shown = [Warning (str ''Complete at least 3 exchanges.'')],
            rerun = False, crashed = None\<rparr>"
proof -
  have "main_pass env FinishInterview s n =
           \<lparr>state = s, calls = n, shown = [Warning (str ''Complete at least 3 exchanges.'')],
            rerun = False, crashed = None\<rparr>"
    using assms by (simp add: main_pass_def after_sidebar_def Let_def)
  then show ?thesis by (simp add: main_def Let_def)
qed

lemma finish_accepted:
  assumes "setup_complete s" "initialized s" "3 \<le> exchange_count s"
  shows "main env FinishInterview s n =
           \<lparr>state = s\<lparr>ksao_result := Some (fst (generate_synthesis (json_loads env) (service env) n)),
                       interview_complete := True\<rparr>,
            calls = Suc n, shown = [], rerun = False, crashed = None\<rparr>"
proof -
  let ?s = "s\<lparr>ksao_result := Some (fst (generate_synthesis (json_loads env) (service env) n)),
              interview_complete := True\<rparr>"
  have p: "main_pass env FinishInterview s n =
           \<lparr>state = ?s, calls = Suc n, shown = [], rerun = True, crashed = None\<rparr>"
    using assms generate_synthesis_calls[of "json_loads env" "service env" n]
    by (simp add: main_pass_def Let_def split_beta)
  have "main_pass env NoEvent ?s (Suc n) =
           \<lparr>state = ?s, calls = Suc n, shown = [], rerun = False, crashed = None\<rparr>"
    using assms by (simp add: rerun_pass)
  with p show ?thesis by (simp add: main_def Let_def)
qed

lemma chat_failure:
  assumes "setup_complete s" "\<not> interview_complete s" "initialized s" "has_areas (coverage s)"
    "prompt \<noteq> []" "service env n = Raised e"
  shows "main env (ChatInput prompt) s n =
           \<lparr>state = s\<lparr>messages := messages s @
                        [\<lparr>role = str ''user'', content = prompt\<rparr>,
                         \<lparr>role = str ''assistant'',
                          content = str ''Technical issue: '' @ take 50 (exn_str e)\<rparr>],
                      coverage := fst (update_coverage (unicode env) prompt (coverage s))\<rparr>,
            calls = Suc n, shown = [], rerun = False, crashed = None\<rparr>"
proof -
  have u: "snd (update_coverage (unicode env) prompt (coverage s)) = None"
    using assms(4) by (rule update_coverage_returns)
  have "main_pass env (ChatInput prompt) s n =
           \<lparr>state = s\<lparr>messages := messages s @
                        [\<lparr>role = str ''user'', content = prompt\<rparr>,
                         \<lparr>role = str ''assistant'',
                          content = str ''Technical issue: '' @ take 50 (exn_str e)\<rparr>],
                      coverage := fst (update_coverage (unicode env) prompt (coverage s))\<rparr>,
            calls = Suc n, shown = [], rerun = False, crashed = None\<rparr>"
    using assms u
    by (simp add: main_pass_def after_sidebar_def chat_turn_def call_llm_def Let_def split_beta)
  then show ?thesis by (simp add: main_def Let_def)
qed

section \<open>Response sanitizer: what it returns\<close>

text \<open>
  Claim C2.  For every generated text that contains \<open>INTERNAL\<close>, the string the
  sanitizer returns does not contain \<open>INTERNAL\<close>, and nothing of what followed it in the
  input has gone into it: the string is the fallback question or a piece of the text
  before the first \<open>INTERNAL\<close>.
\<close>

theorem sanitize_strips_internal:
  "contains (str ''INTERNAL'') text \<Longrightarrow>
     \<not> contains (str ''INTERNAL'') (sanitize text) \<and>
     (sanitize text = fallback \<or> sublist (sanitize text) (before (str ''INTERNAL'') text))"
proof -
  assume c: "contains (str ''INTERNAL'') text"
  have m: "str ''INTERNAL'' \<in> set markers" by (simp add: markers_def)
  have "\<not> contains (str ''INTERNAL'') (sanitize text)"
    using sanitize_clean[of "text"] m unfolding contains_any_def list_ex_iff by blast
  with sanitize_from_before[OF m c] show ?thesis by blast
qed

theorem sanitize_strips_internal_witness:
  "contains (str ''INTERNAL'') (str ''Thanks for that. INTERNAL TRACKING: Coverage so far'')
   \<and> sanitize (str ''Thanks for that. INTERNAL TRACKING: Coverage so far'') = str ''Thanks for that.''
   \<and> \<not> contains (str ''INTERNAL'') (sanitize (str ''Thanks for that. INTERNAL TRACKING: Coverage so far''))
   \<and> sublist (sanitize (str ''Thanks for that. INTERNAL TRACKING: Coverage so far''))
        (before (str ''INTERNAL'') (str ''Thanks for that. INTERNAL TRACKING: Coverage so far''))"
proof -
  let ?t = "str ''Thanks for that. INTERNAL TRACKING: Coverage so far''"
  have h: "contains (str ''INTERNAL'') ?t" by (simp add: str_def)
  have v: "sanitize ?t = str ''Thanks for that.''"
    by (simp add: sanitize_def markers_def strip_marker_def split_def strip_def isspace_def
        trim_sentence_def rfind_def fallback_def str_def)
  have "sanitize ?t \<noteq> fallback" unfolding v by (simp add: fallback_def str_def)
  with sanitize_strips_internal[OF h] h v show ?thesis by simp
qed

text \<open>
  Claim C6, as amended.  Let the kept text be the generated text truncated at the first
  occurrence of any marker and then stripped of the white space around it (the
  generated text itself when it has no marker).  Unless the kept text has several code
  points and its only terminal punctuation mark is the first of them, \<open>sanitize\<close>
  returns what the description says with the stripping added: the kept text, truncated
  back to its last terminal punctuation mark when it does not end in one and has one,
  and the fallback question when nothing is left.
\<close>

theorem sanitize_as_described:
  "\<not> lone_leading_mark (cut markers text) \<Longrightarrow> sanitize text = described_sanitize strip text"
  by (rule sanitize_refines)

theorem sanitize_as_described_witness:
  "\<not> lone_leading_mark (cut markers (str '' Hi. INTERNAL''))
   \<and> sanitize (str '' Hi. INTERNAL'') = described_sanitize strip (str '' Hi. INTERNAL'')
   \<and> described_sanitize strip (str '' Hi. INTERNAL'') = str ''Hi.''"
proof -
  have c: "cut markers (str '' Hi. INTERNAL'') = str ''Hi.''"
    by (simp add: cut_def contains_any_def markers_def strip_def isspace_def str_def)
  have h: "\<not> lone_leading_mark (cut markers (str '' Hi. INTERNAL''))"
    unfolding c by (simp add: lone_leading_mark_def upto_last_terminal_def is_terminal_def str_def)
  have v: "described_sanitize strip (str '' Hi. INTERNAL'') = str ''Hi.''"
    by (simp add: described_sanitize_def contains_any_def markers_def strip_def isspace_def
        upto_last_terminal_def is_terminal_def fallback_def str_def)
  from sanitize_as_described[OF h] h v show ?thesis by simp
qed

text \<open>
  The description as it stands, with nothing done to the kept text after the truncation
  at a marker, is not what \<open>sanitize\<close> computes: on a text that begins with a space the
  program strips it, the description keeps it.
\<close>

theorem sanitize_as_described_counterexample:
  "sanitize (str '' Hi. INTERNAL'') = str ''Hi.'' \<and>
   described_sanitize (\<lambda>t. t) (str '' Hi. INTERNAL'') = str '' Hi.'' \<and>
   sanitize (str '' Hi. INTERNAL'') \<noteq> described_sanitize (\<lambda>t. t) (str '' Hi. INTERNAL'')"
  by (simp add: sanitize_def markers_def strip_marker_def split_def strip_def isspace_def
        trim_sentence_def rfind_def fallback_def described_sanitize_def contains_any_def
        upto_last_terminal_def is_terminal_def str_def)

text \<open>
  A text left out above: its only terminal punctuation mark is its first code point, and
  the guard \<open>last_period > 0\<close> keeps it whole.
\<close>

lemma sanitize_leading_mark: "sanitize (str ''?abc'') = str ''?abc''"
  by (simp add: sanitize_def markers_def strip_marker_def trim_sentence_def rfind_def
        fallback_def str_def)

text \<open>
  Claim C8.  A non-empty text that ends in \<open>.\<close>, \<open>?\<close> or \<open>!\<close> and contains none of the
  markers is returned unchanged by the sanitizer.
\<close>

theorem sanitize_idempotent:
  "text \<noteq> [] \<Longrightarrow> is_terminal (last text) \<Longrightarrow> \<not> contains_any markers text \<Longrightarrow>
     sanitize text = text"
  by (rule sanitize_unchanged)

theorem sanitize_idempotent_witness:
  "str ''What tools do you use?'' \<noteq> [] \<and> is_terminal (last (str ''What tools do you use?''))
   \<and> \<not> contains_any markers (str ''What tools do you use?'')
   \<and> sanitize (str ''What tools do you use?'') = str ''What tools do you use?''"
proof -
  have 1: "str ''What tools do you use?'' \<noteq> []" by (simp add: str_def)
  have 2: "is_terminal (last (str ''What tools do you use?''))" by (simp add: is_terminal_def str_def)
  have 3: "\<not> contains_any markers (str ''What tools do you use?'')"
    by (simp add: contains_any_def markers_def str_def)
  from sanitize_idempotent[OF 1 2 3] 1 2 3 show ?thesis by simp
qed

text \<open>
  Claim C10.  Whatever the generated text, the string the sanitizer returns contains none
  of the seven markers.
\<close>

theorem sanitize_no_marker:
  "\<not> contains (str ''COVERAGE'') (sanitize text) \<and>
   \<not> contains (str ''PROGRESS:'') (sanitize text) \<and>
   \<not> contains (str ''INTERNAL'') (sanitize text) \<and>
   \<not> contains (str ''exchanges'') (sanitize text) \<and>
   \<not> contains [0x25D0] (sanitize text) \<and>
   \<not> contains [0x25CB] (sanitize text) \<and>
   \<not> contains [0x2713] (sanitize text)"
  using sanitize_clean[of "text"] by (simp add: contains_any_def markers_def)

section \<open>Synthesis engine: the brace-delimited region\<close>

text \<open>
  Claim C4.  When the response has no \<open>{\<close> before an opening brace and no \<open>}\<close> after a
  later closing brace, \<open>generate_synthesis\<close> hands exactly the text from the one to the
  other to the parser and returns what the parser makes of it, after one service call;
  the text around the region plays no part.  For the response
  \<open>Sure! {\<dots>} thanks\<close> of the example this is the embedded document.
\<close>

theorem synthesis_extracts_embedded_object:
  "(123 \<notin> set pre \<and> 125 \<notin> set post \<and> svc n = Text (pre @ [123] @ mid @ [125] @ post) \<longrightarrow>
      generate_synthesis loads svc n =
        ((case loads ([123] @ mid @ [125]) of Inr doc \<Rightarrow> Document doc | Inl e \<Rightarrow> on_exception e),
         Suc n)) \<and>
   (svc n = Text example_response \<longrightarrow>
      generate_synthesis loads svc n =
        ((case loads example_document of Inr doc \<Rightarrow> Document doc | Inl e \<Rightarrow> on_exception e),
         Suc n))"
proof -
  have g: "generate_synthesis loads svc n =
        ((case loads ([123] @ mid @ [125]) of Inr doc \<Rightarrow> Document doc | Inl e \<Rightarrow> on_exception e),
         Suc n)"
    if "123 \<notin> set pre" "125 \<notin> set post" "svc n = Text (pre @ [123] @ mid @ [125] @ post)"
    for pre post mid
    using that by (rule synthesis_embedded)
  have d: "example_document = [123] @ butlast (tl example_document) @ [125]"
    by (simp add: example_document_def str_def)
  have "generate_synthesis loads svc n =
        ((case loads example_document of Inr doc \<Rightarrow> Document doc | Inl e \<Rightarrow> on_exception e),
         Suc n)" if s: "svc n = Text example_response"
  proof -
    have 1: "123 \<notin> set (str ''Sure! '')" and 2: "125 \<notin> set (str '' thanks'')"
      by (simp_all add: str_def)
    have 3: "svc n = Text (str ''Sure! '' @ [123] @ butlast (tl example_document) @ [125] @ str '' thanks'')"
      using s d by (simp add: example_response_def)
    from g[OF 1 2 3] d show ?thesis by simp
  qed
  with g show ?thesis by blast
qed

theorem synthesis_extracts_embedded_object_witness:
  "generate_synthesis (\<lambda>s. Inr s) (\<lambda>n. Text example_response) 0 = (Document example_document, 1)
   \<and> example_response = str ''Sure! '' @ example_document @ str '' thanks''"
  using synthesis_extracts_embedded_object[of "[]" "[]" "\<lambda>n. Text example_response" 0 "[]" "\<lambda>s. Inr s"]
  by (simp add: example_response_def)

text \<open>
  Claim C5.  When the response text has no \<open>{\<close>, or its last \<open>}\<close> is not after its first
  \<open>{\<close>, \<open>generate_synthesis\<close> returns the error record \<open>No JSON found\<close> whose \<open>raw\<close>
  entry is the whole response text.
\<close>

theorem synthesis_without_region:
  "svc n = Text text \<Longrightarrow>
   \<not> contains (str ''{'') text \<or> rfind text (str ''}'') \<le> find_py text (str ''{'') \<Longrightarrow>
     generate_synthesis loads svc n = (Failure (str ''No JSON found'') (Some text), Suc n)"
proof -
  assume s: "svc n = Text text"
    and a: "\<not> contains (str ''{'') text \<or> rfind text (str ''}'') \<le> find_py text (str ''{'')"
  from no_region[OF a]
  have r: "\<not> (0 \<le> find_py text (str ''{'') \<and> find_py text (str ''{'') < rfind text (str ''}'') + 1)" .
  show ?thesis
    unfolding generate_synthesis_def s Let_def by (simp only: outcome.case r if_False)
qed

theorem synthesis_without_region_witness:
  "\<not> contains (str ''{'') (str ''I could not analyse this.'') \<and>
   generate_synthesis (\<lambda>s. Inr s) (\<lambda>n. Text (str ''I could not analyse this.'')) 0 =
     (Failure (str ''No JSON found'') (Some (str ''I could not analyse this.'')), 1) \<and>
   rfind (str ''} then {'') (str ''}'') \<le> find_py (str ''} then {'') (str ''{'') \<and>
   generate_synthesis (\<lambda>s. Inr s) (\<lambda>n. Text (str ''} then {'')) 0 =
     (Failure (str ''No JSON found'') (Some (str ''} then {'')), 1)"
proof -
  have 1: "\<not> contains (str ''{'') (str ''I could not analyse this.'')" by (simp add: str_def)
  have 2: "rfind (str ''} then {'') (str ''}'') \<le> find_py (str ''} then {'') (str ''{'')"
    by (simp add: rfind_def find_py_def str_def)
  from synthesis_without_region[of "\<lambda>n. Text (str ''I could not analyse this.'')" 0
        "str ''I could not analyse this.''" "\<lambda>s. Inr s"]
    synthesis_without_region[of "\<lambda>n. Text (str ''} then {'')" 0 "str ''} then {''" "\<lambda>s. Inr s"] 1 2
  show ?thesis by simp
qed

section \<open>Interview loop: finishing, and a failing call\<close>

text \<open>
  Claim C3.  In an interview in progress, the Finish Interview action with fewer than
  three user messages shows the warning and leaves the session as it was: no service
  call is made, the state stays \<open>Interviewing\<close> and the stored synthesis result is
  untouched.  With three or more, exactly one service call is made, its synthesis is
  stored and the completion flag is set, so that the state is \<open>Complete\<close>.
\<close>

theorem finish_interview_threshold:
  "phase_of s = Interviewing \<Longrightarrow> initialized s \<Longrightarrow>
   (exchange_count s < 3 \<longrightarrow>
      main env FinishInterview s n =
        \<lparr>state = s, calls = n, shown = [Warning (str ''Complete at least 3 exchanges.'')],
         rerun = False, crashed = None\<rparr> \<and>
      phase_of (state (main env FinishInterview s n)) = Interviewing \<and>
      ksao_result (state (main env FinishInterview s n)) = ksao_result s) \<and>
   (3 \<le> exchange_count s \<longrightarrow>
      state (main env FinishInterview s n) =
        s\<lparr>ksao_result := Some (fst (generate_synthesis (json_loads env) (service env) n)),
          interview_complete := True\<rparr> \<and>
      calls (main env FinishInterview s n) = Suc n \<and>
      phase_of (state (main env FinishInterview s n)) = Complete)"
proof -
  assume i: "phase_of s = Interviewing" and init: "initialized s"
  from i have sc: "setup_complete s" by (simp add: phase_of_def split: if_splits)
  show ?thesis
  proof (cases "exchange_count s < 3")
    case True
    with finish_rejected[OF sc init True] i show ?thesis by simp
  next
    case False
    then have "3 \<le> exchange_count s" by simp
    from finish_accepted[OF sc init this] sc False show ?thesis by (simp add: phase_of_def)
  qed
qed

theorem finish_interview_threshold_witness:
  "phase_of (demo_session 2) = Interviewing \<and> initialized (demo_session 2) \<and>
   exchange_count (demo_session 2) = 2 \<and>
   state (main demo_env FinishInterview (demo_session 2) 1) = demo_session 2 \<and>
   calls (main demo_env FinishInterview (demo_session 2) 1) = 1 \<and>
   phase_of (demo_session 3) = Interviewing \<and> initialized (demo_session 3) \<and>
   exchange_count (demo_session 3) = 3 \<and>
   calls (main demo_env FinishInterview (demo_session 3) 1) = 2 \<and>
   phase_of (state (main demo_env FinishInterview (demo_session 3) 1)) = Complete"
proof -
  have p: "phase_of (demo_session k) = Interviewing" "initialized (demo_session k)" for k
    by (simp_all add: phase_of_def demo_session_def defaults_def)
  have e2: "exchange_count (demo_session 2) = 2"
    by (simp add: exchange_count_def demo_session_def str_def numeral_2_eq_2)
  have e3: "exchange_count (demo_session 3) = 3"
    by (simp add: exchange_count_def demo_session_def str_def numeral_3_eq_3)
  from finish_interview_threshold[OF p, of 2 demo_env 1] e2
  have a: "state (main demo_env FinishInterview (demo_session 2) 1) = demo_session 2"
    "calls (main demo_env FinishInterview (demo_session 2) 1) = 1" by simp_all
  have "3 \<le> exchange_count (demo_session 3)" by (simp add: e3)
  with finish_interview_threshold[OF p, of 3 demo_env 1]
  have "calls (main demo_env FinishInterview (demo_session 3) 1) = Suc 1 \<and>
    phase_of (state (main demo_env FinishInterview (demo_session 3) 1)) = Complete" by blast
  then have b: "calls (main demo_env FinishInterview (demo_session 3) 1) = 2"
    "phase_of (state (main demo_env FinishInterview (demo_session 3) 1)) = Complete" by simp_all
  from a b p e2 e3 show ?thesis by simp
qed

text \<open>
  Claim C9.  When the generation call raises, \<open>call_llm\<close> makes no second call and
  raises nothing: it returns \<open>Technical issue: \<close> followed by the first 50 code points
  of the description of the failure.  In an interview in progress the chat turn appends
  the user message and then this string as the assistant message, and the interview
  stays in progress.
\<close>

theorem call_failure_absorbed:
  "service env n = Raised e \<Longrightarrow>
   call_llm (service env) n = (str ''Technical issue: '' @ take 50 (exn_str e), Suc n) \<and>
   (phase_of s = Interviewing \<and> initialized s \<and> has_areas (coverage s) \<and> prompt \<noteq> [] \<longrightarrow>
      messages (state (main env (ChatInput prompt) s n)) =
        messages s @ [\<lparr>role = str ''user'', content = prompt\<rparr>,
                      \<lparr>role = str ''assistant'',
                       content = str ''Technical issue: '' @ take 50 (exn_str e)\<rparr>] \<and>
      calls (main env (ChatInput prompt) s n) = Suc n \<and>
      crashed (main env (ChatInput prompt) s n) = None \<and>
      phase_of (state (main env (ChatInput prompt) s n)) = Interviewing \<and>
      initialized (state (main env (ChatInput prompt) s n)) \<and>
      has_areas (coverage (state (main env (ChatInput prompt) s n))))"
proof -
  assume r: "service env n = Raised e"
  have 1: "call_llm (service env) n = (str ''Technical issue: '' @ take 50 (exn_str e), Suc n)"
    by (simp add: call_llm_def r)
  have 2: ?thesis if a: "phase_of s = Interviewing" "initialized s" "has_areas (coverage s)" "prompt \<noteq> []"
  proof -
    from a(1) have sc: "setup_complete s" "\<not> interview_complete s"
      by (simp_all add: phase_of_def split: if_splits)
    from chat_failure[OF sc a(2,3,4) r] 1 a sc update_coverage_keeps_areas[OF a(3)]
    show ?thesis by (simp add: phase_of_def)
  qed
  with 1 show ?thesis by blast
qed

theorem call_failure_absorbed_witness:
  "service demo_env 0 = Raised (OtherException (str ''Connection error.'')) \<and>
   phase_of (demo_session 1) = Interviewing \<and> initialized (demo_session 1) \<and>
   has_areas (coverage (demo_session 1)) \<and> str ''hello'' \<noteq> [] \<and>
   call_llm (service demo_env) 0 = (str ''Technical issue: Connection error.'', 1) \<and>
   messages (state (main demo_env (ChatInput (str ''hello'')) (demo_session 1) 0)) =
     messages (demo_session 1) @
       [\<lparr>role = str ''user'', content = str ''hello''\<rparr>,
        \<lparr>role = str ''assistant'', content = str ''Technical issue: Connection error.''\<rparr>] \<and>
   calls (main demo_env (ChatInput (str ''hello'')) (demo_session 1) 0) = 1"
proof -
  have r: "service demo_env 0 = Raised (OtherException (str ''Connection error.''))"
    by (simp add: demo_env_def)
  have p: "phase_of (demo_session 1) = Interviewing" "initialized (demo_session 1)"
    by (simp_all add: phase_of_def demo_session_def defaults_def)
  have h: "has_areas (coverage (demo_session 1))"
    by (simp add: demo_session_def defaults_def has_areas_def checks_def COVERAGE_AREAS_def str_def)
  have n: "str ''hello'' \<noteq> []" by (simp add: str_def)
  have t: "str ''Technical issue: '' @ take 50 (exn_str (OtherException (str ''Connection error.'')))
             = str ''Technical issue: Connection error.''"
    by (simp add: str_def)
  from call_failure_absorbed[OF r, of "demo_session 1" "str ''hello''"] r p h n
  show ?thesis unfolding t by simp
qed

end
